theory Spec2Isabelle
  imports Complex_Main "HOL-Library.Word"
begin

unbundle bit_operations_syntax

text \<open>
  A model of \<open>INA229_worker.js\<close>, the web worker between an application and an INA229
  evaluation board: a serial channel of text lines for commands and their answers, and a
  USB bulk endpoint for binary telemetry. The repository holds the file twice. The model
  follows the later version, which has the line reader \<open>createLineReader\<close> and the command
  queue; the scan loop of \<open>readUsbLoop\<close> is the same, word for word, in both versions. Of
  the earlier version (\<open>ti-ina229/INA229_worker.js\<close>) the model has the text channel,
  \<open>readSerialLoop\<close> with \<open>processTextBuffer\<close>, which frames the lines in another way.
\<close>

section \<open>JavaScript values used by the worker\<close>

text \<open>
  A JavaScript Number is an IEEE double. Every finite double is a rational, kept here as
  its exact mathematical value; the two infinities, the negative zero and NaN are separate
  constructors.
\<close>

datatype number = Num rat | NegZero | Infinity | NegInfinity | NaN

datatype exn = RangeError | TypeError | SyntaxError

type_synonym u8 = "8 word"
type_synonym int32 = "32 word"

subsection \<open>\<open>Number(bigint)\<close>\<close>

text \<open>
  \<open>Number(v)\<close> for a BigInt \<open>v\<close> is the double nearest to \<open>v\<close>, ties to the even
  significand, and an infinity when the rounded magnitude reaches \<open>2 ^ 1024\<close>. With \<open>e\<close>
  the number of bits of \<open>|v|\<close> beyond 53, the significand is \<open>|v| div 2 ^ e\<close>, rounded up
  when the remainder is above half of \<open>2 ^ e\<close>, or equal to it with an odd significand.
\<close>

fun bit_length :: "nat \<Rightarrow> nat" where
  "bit_length n = (if n = 0 then 0 else Suc (bit_length (n div 2)))"

declare bit_length.simps [simp del]

definition Number_BigInt :: "int \<Rightarrow> number" where
  "Number_BigInt v =
     (let m = nat \<bar>v\<bar>;
          e = bit_length m - 53;
          q = m div 2 ^ e;
          r = m mod 2 ^ e;
          q' = (if 2 * r < 2 ^ e \<or> (2 * r = 2 ^ e \<and> even q) then q else q + 1);
          m' = q' * 2 ^ e
      in if 2 ^ 1024 \<le> m' then (if v < 0 then NegInfinity else Infinity)
         else Num (of_int (sgn v * int m')))"

subsection \<open>Parsed JSON\<close>

text \<open>
  The values \<open>JSON.parse\<close> returns. An object is the list of its own properties, a
  property being looked up by its key. A value the code reads from one of them may also be
  \<open>undefined\<close>, which is \<open>None\<close> of \<open>json option\<close>.
\<close>

datatype json =
  JNull
  | JBool bool
  | JNumber number
  | JString string
  | JArray "json list"
  | JObject "(string \<times> json) list"

text \<open>What \<open>if (v)\<close> tests.\<close>

fun truthy :: "json \<Rightarrow> bool" where
  "truthy JNull = False"
| "truthy (JBool b) = b"
| "truthy (JNumber n) = (n \<noteq> Num 0 \<and> n \<noteq> NegZero \<and> n \<noteq> NaN)"
| "truthy (JString s) = (s \<noteq> [])"
| "truthy (JArray xs) = True"
| "truthy (JObject kvs) = True"

text \<open>
  The property access \<open>v.key\<close>, for the keys the worker reads (\<open>acknowledge\<close>,
  \<open>evm_state\<close>, \<open>register\<close>, \<open>address\<close>, \<open>value\<close>), none of which the built-in prototypes
  define: a TypeError on \<open>null\<close>, the own property of an object, \<open>undefined\<close> on every
  other value.
\<close>

fun property :: "json \<Rightarrow> string \<Rightarrow> exn + json option" where
  "property JNull key = Inl TypeError"
| "property (JObject kvs) key = Inr (map_of kvs key)"
| "property v key = Inr None"

text \<open>
  Two operations of the JavaScript runtime are parameters of the model, so that what is
  proved of the worker holds whatever they compute: \<open>JSON.parse\<close>, with \<open>None\<close> when it
  throws its SyntaxError, and the comparison \<open>v == 'text'\<close> of a parsed value with a string
  literal, which converts an array or an object to a string first and can throw a TypeError
  there.
\<close>

record runtime =
  JSON_parse :: "string \<Rightarrow> json option"
  loosely_equals :: "json \<Rightarrow> string \<Rightarrow> exn + bool"

section \<open>Telemetry decoder: the scan loop of \<open>readUsbLoop\<close>\<close>

text \<open>
  The DataView of one bulk transfer is the list of its bytes; \<open>byteLength\<close> is its length.
  \<open>getUint8\<close> throws a RangeError outside the view.
\<close>

definition getUint8 :: "u8 list \<Rightarrow> nat \<Rightarrow> exn + u8" where
  "getUint8 dataView i = (if i < length dataView then Inr (dataView ! i) else Inl RangeError)"

text \<open>
  \<open>for (let i = 0; i < registerSize; i++) rawValue = (rawValue << 8) | dataView.getUint8(offset + 4 + i)\<close>:
  \<open><<\<close> and \<open>|\<close> work on 32-bit signed integers, so the accumulator is a 32-bit word, read
  as a signed value when the loop is left.
\<close>

function rawValue_loop32 :: "u8 list \<Rightarrow> nat \<Rightarrow> nat \<Rightarrow> nat \<Rightarrow> int32 \<Rightarrow> exn + int32" where
  "rawValue_loop32 dataView offset registerSize i rawValue =
     (if i < registerSize then
        (case getUint8 dataView (offset + 4 + i) of
           Inl e \<Rightarrow> Inl e
         | Inr b \<Rightarrow> rawValue_loop32 dataView offset registerSize (i + 1)
                      (push_bit 8 rawValue OR ucast b))
      else Inr rawValue)"
  by pat_completeness auto
termination
  by (relation "measure (\<lambda>(dataView, offset, registerSize, i, rawValue). registerSize - i)") auto

declare rawValue_loop32.simps [simp del]

text \<open>
  \<open>for (let i = 0; i < registerSize; i++) rawValue = (rawValue << 8n) | BigInt(dataView.getUint8(offset + 4 + i))\<close>:
  BigInts are unbounded integers.
\<close>

function rawValue_loopBig :: "u8 list \<Rightarrow> nat \<Rightarrow> nat \<Rightarrow> nat \<Rightarrow> int \<Rightarrow> exn + int" where
  "rawValue_loopBig dataView offset registerSize i rawValue =
     (if i < registerSize then
        (case getUint8 dataView (offset + 4 + i) of
           Inl e \<Rightarrow> Inl e
         | Inr b \<Rightarrow> rawValue_loopBig dataView offset registerSize (i + 1)
                      (push_bit 8 rawValue OR uint b))
      else Inr rawValue)"
  by pat_completeness auto
termination
  by (relation "measure (\<lambda>(dataView, offset, registerSize, i, rawValue). registerSize - i)") auto

declare rawValue_loopBig.simps [simp del]

definition assemble_rawValue :: "u8 list \<Rightarrow> nat \<Rightarrow> nat \<Rightarrow> exn + number" where
  "assemble_rawValue dataView offset registerSize =
     (if registerSize > 4 then
        (case rawValue_loopBig dataView offset registerSize 0 0 of
           Inl e \<Rightarrow> Inl e
         | Inr rawValue \<Rightarrow> Inr (Number_BigInt rawValue))
      else
        (case rawValue_loop32 dataView offset registerSize 0 0 of
           Inl e \<Rightarrow> Inl e
         | Inr rawValue \<Rightarrow> Inr (Num (of_int (sint rawValue)))))"

record update =
  address :: u8
  rawValue :: number

subsection \<open>What the worker does to the outside\<close>

text \<open>
  The messages of \<open>self.postMessage\<close>, by their \<open>type\<close>: \<open>status\<close>, \<open>log\<close> with its
  message and direction, \<open>processed-register-data\<close> with the address and value read from a
  line (either may be \<open>undefined\<close>), \<open>processed-bulk-data\<close> with the updates of one transfer.
\<close>

datatype direction = DirIn | DirOut | DirSystem

datatype message =
  Status string
  | Log string direction
  | ProcessedRegisterData "json option" "json option"
  | ProcessedBulkData "update list"

text \<open>
  The effects of a handler, in order: a message posted, a text handed to
  \<open>serialWriter.write\<close>, the start of one of the two read loops, and an exception that
  leaves an \<open>async\<close> function, which rejects a promise nobody handles. \<open>console.debug\<close> is
  left out.
\<close>

datatype effect =
  PostMessage message
  | SerialWrite string
  | Call_readSerialLoop
  | Call_readUsbLoop
  | UnhandledRejection

text \<open>
  One iteration of \<open>while (offset < dataView.byteLength)\<close>, entered with the loop condition
  true: it goes on with a new offset and update list (\<open>continue\<close>, or the end of the body),
  leaves the loop (\<open>break\<close>), or throws.
\<close>

datatype 'a flow = Continue 'a | Break 'a | Throw exn

definition scan_body :: "u8 list \<Rightarrow> nat \<times> update list \<Rightarrow> (nat \<times> update list) flow" where
  "scan_body dataView s =
     (case s of (offset, updates) \<Rightarrow>
        (case getUint8 dataView offset of
           Inl e \<Rightarrow> Throw e
         | Inr frameID \<Rightarrow>
             if frameID \<noteq> 0 then Continue (offset + 1, updates)
             else if offset + 4 > length dataView then Break (offset, updates)
             else
               (case getUint8 dataView (offset + 2) of
                  Inl e \<Rightarrow> Throw e
                | Inr addr \<Rightarrow>
                    (case getUint8 dataView (offset + 3) of
                       Inl e \<Rightarrow> Throw e
                     | Inr registerSize \<Rightarrow>
                         if offset + 4 + unat registerSize > length dataView
                         then Break (offset, updates)
                         else
                           (case assemble_rawValue dataView offset (unat registerSize) of
                              Inl e \<Rightarrow> Throw e
                            | Inr raw \<Rightarrow>
                                Continue (offset + 4 + unat registerSize,
                                  updates @ [\<lparr>address = addr, rawValue = raw\<rparr>]))))))"

text \<open>
  The loop itself. Nothing in its shape bounds the number of iterations, so it is a partial
  function: \<open>None\<close> stands for a loop that never ends, \<open>Some (Inl e)\<close> for an exception
  that leaves it, \<open>Some (Inr updates)\<close> for its normal end.
\<close>

partial_function (option) scan_loop :: "u8 list \<Rightarrow> nat \<times> update list \<Rightarrow> (exn + update list) option" where
  "scan_loop dataView s =
     (if fst s < length dataView then
        (case scan_body dataView s of
           Continue s' \<Rightarrow> scan_loop dataView s'
         | Break s' \<Rightarrow> Some (Inr (snd s'))
         | Throw e \<Rightarrow> Some (Inl e))
      else Some (Inr (snd s)))"

declare scan_loop.simps [code]

text \<open>
  What one transfer with status \<open>ok\<close> posts: \<open>updates = []\<close>, \<open>offset = 0\<close>, the loop, then
  one \<open>processed-bulk-data\<close> message when the list is not empty. An exception goes on to the
  \<open>catch\<close> of the transfer loop.
\<close>

definition decode_transfer :: "u8 list \<Rightarrow> (exn + effect list) option" where
  "decode_transfer dataView =
     (case scan_loop dataView (0, []) of
        None \<Rightarrow> None
      | Some (Inl e) \<Rightarrow> Some (Inl e)
      | Some (Inr updates) \<Rightarrow>
          Some (Inr (if length updates > 0 then [PostMessage (ProcessedBulkData updates)] else [])))"

subsection \<open>The record encoding the decoder is specified against\<close>

text \<open>
  The frame layout of one record: the sentinel byte 0, a reserved byte, the address byte,
  the width byte \<open>N\<close>, then the \<open>N\<close> bytes of the value, most significant first. The
  last of the \<open>N\<close> bytes is \<open>V mod 256\<close>, the bytes before it are those of \<open>V div 256\<close>.
\<close>

fun big_endian :: "nat \<Rightarrow> nat \<Rightarrow> u8 list" where
  "big_endian 0 V = []"
| "big_endian (Suc n) V = big_endian n (V div 256) @ [of_nat V]"

definition encode_record :: "u8 \<Rightarrow> u8 \<Rightarrow> u8 \<Rightarrow> nat \<Rightarrow> u8 list" where
  "encode_record reserved A N V = [0, reserved, A, N] @ big_endian (unat N) V"

text \<open>The unsigned value of bytes read most significant first: the sum of \<open>byte\<^sub>i * 256 ^ (N - 1 - i)\<close>.\<close>

definition unsigned_value :: "u8 list \<Rightarrow> nat" where
  "unsigned_value bs = (\<Sum>i \<leftarrow> [0..<length bs]. unat (bs ! i) * 256 ^ (length bs - 1 - i))"

text \<open>
  The value the two accumulation loops compute from the value bytes alone, with the
  conversion that follows each of them.
\<close>

definition rawValue_of :: "u8 list \<Rightarrow> number" where
  "rawValue_of bs =
     (if length bs > 4 then Number_BigInt (foldl (\<lambda>a b. push_bit 8 a OR uint b) 0 bs)
      else Num (of_int (sint (foldl (\<lambda>a b. push_bit 8 a OR ucast b) (0 :: int32) bs))))"

section \<open>Line framer: \<open>createLineReader\<close>\<close>

text \<open>
  Strings are lists of characters. The delimiter searched by \<open>buffer.indexOf\<close> is
  carriage return, line feed. \<open>indexOf\<close> is the first index at which the pattern stands,
  \<open>None\<close> for the result -1.
\<close>

definition CRLF :: string where
  "CRLF = [CHR 0x0D, CHR 0x0A]"

fun indexOf :: "string \<Rightarrow> string \<Rightarrow> nat option" where
  "indexOf [] pat = (if pat = [] then Some 0 else None)"
| "indexOf (c # cs) pat =
     (if take (length pat) (c # cs) = pat then Some 0 else map_option Suc (indexOf cs pat))"

text \<open>
  The reader under the line reader yields the chunks of the stream in order; after the last
  one every \<open>read()\<close> reports \<open>done\<close>, or, for a stream that broke, rejects with an error
  whose message is kept.
\<close>

datatype stream_end = Done | Failed string

text \<open>
  \<open>readLine\<close>, the function \<open>createLineReader\<close> returns, with the buffer it closes over and
  the chunks still to come as arguments. It returns the line (\<open>None\<close> for \<open>null\<close>) with the
  new buffer and the chunks left, or throws what \<open>reader.read()\<close> threw. A new line reader
  starts with the empty buffer.
\<close>

fun readLine :: "stream_end \<Rightarrow> string \<Rightarrow> string list \<Rightarrow> string + (string option \<times> string \<times> string list)" where
  "readLine e buffer [] =
     (case indexOf buffer CRLF of
        Some newlineIndex \<Rightarrow> Inr (Some (take newlineIndex buffer), drop (newlineIndex + 2) buffer, [])
      | None \<Rightarrow>
          (case e of
             Failed message \<Rightarrow> Inl message
           | Done \<Rightarrow>
               if length buffer > 0 then Inr (Some buffer, [], [])
               else Inr (None, buffer, [])))"
| "readLine e buffer (chunk # chunks) =
     (case indexOf buffer CRLF of
        Some newlineIndex \<Rightarrow>
          Inr (Some (take newlineIndex buffer), drop (newlineIndex + 2) buffer, chunk # chunks)
      | None \<Rightarrow> readLine e (buffer @ chunk) chunks)"

text \<open>Each line \<open>readLine\<close> returns uses up at least one character of the buffer and the chunks.\<close>

lemma indexOf_bound: "indexOf s pat = Some i \<Longrightarrow> i + length pat \<le> length s"
proof (induction s arbitrary: i)
  case Nil
  then show ?case by (simp split: if_splits)
next
  case (Cons c cs)
  show ?case
  proof (cases "take (length pat) (c # cs) = pat")
    case True
    then have "length (take (length pat) (c # cs)) = length pat" by simp
    then have "length pat \<le> length (c # cs)" by (simp del: take_Suc_Cons)
    then show ?thesis using Cons.prems True by simp
  next
    case False
    then obtain j where "indexOf cs pat = Some j" "i = Suc j"
      using Cons.prems by auto
    then show ?thesis using Cons.IH[of j] by simp
  qed
qed

lemma readLine_shrinks:
  "readLine e buffer chunks = Inr (Some line, buffer', chunks') \<Longrightarrow>
   length buffer' + length (concat chunks') < length buffer + length (concat chunks)"
proof (induction chunks arbitrary: buffer)
  case Nil
  then show ?case
    by (auto simp: CRLF_def split: option.splits stream_end.splits if_splits dest!: indexOf_bound)
next
  case (Cons chunk chunks)
  show ?case
  proof (cases "indexOf buffer CRLF")
    case None
    then have "readLine e (buffer @ chunk) chunks = Inr (Some line, buffer', chunks')"
      using Cons.prems by simp
    from Cons.IH[OF this] show ?thesis by simp
  next
    case (Some i)
    then show ?thesis
      using Cons.prems indexOf_bound[OF Some] by (auto simp: CRLF_def)
  qed
qed

text \<open>
  The lines the loop of \<open>readSerialLoop\<close> gets from its line reader: it calls \<open>serialReader()\<close>
  until the result is \<open>null\<close> or the call throws. The second component is the message of
  the error that ended the loop, if one did.
\<close>

function readLines :: "stream_end \<Rightarrow> string \<Rightarrow> string list \<Rightarrow> string list \<times> string option" where
  "readLines e buffer chunks =
     (case readLine e buffer chunks of
        Inl message \<Rightarrow> ([], Some message)
      | Inr (None, buffer', chunks') \<Rightarrow> ([], None)
      | Inr (Some line, buffer', chunks') \<Rightarrow>
          (case readLines e buffer' chunks' of (lines, err) \<Rightarrow> (line # lines, err)))"
  by pat_completeness auto
termination
  by (relation "measure (\<lambda>(e, buffer, chunks). length buffer + length (concat chunks))")
    (auto dest: readLine_shrinks)

declare readLines.simps [simp del]

subsection \<open>The text the framer is specified against\<close>

text \<open>A string holds the delimiter when a carriage return is followed by a line feed in it.\<close>

fun contains_CRLF :: "string \<Rightarrow> bool" where
  "contains_CRLF (a # b # cs) = ((a = CHR 0x0D \<and> b = CHR 0x0A) \<or> contains_CRLF (b # cs))"
| "contains_CRLF cs = False"

text \<open>
  The first line of a whole text and what is left after it: up to the first delimiter, or,
  without one, all of a text that is not empty.
\<close>

definition next_line :: "string \<Rightarrow> string option \<times> string" where
  "next_line text =
     (case indexOf text CRLF of
        Some i \<Rightarrow> (Some (take i text), drop (i + 2) text)
      | None \<Rightarrow> (if text = [] then None else Some text, []))"

section \<open>Session: the command queue and the handlers of the worker\<close>

text \<open>
  The variables of the worker. Of \<open>serialPort\<close>, \<open>serialReader\<close>, \<open>serialWriter\<close> and
  \<open>usbDevice\<close> the worker only tests whether they hold an object (\<open>True\<close>) or are
  \<open>undefined\<close> or \<open>null\<close> (\<open>False\<close>). A command is a text. \<open>state\<close> holds whatever value
  the last \<open>evm_state\<close> had.
\<close>

record worker =
  serialPort :: bool
  serialReader :: bool
  serialWriter :: bool
  usbDevice :: bool
  stopUsbLoop :: bool
  queue :: "string list"
  state :: json
  ackd :: bool

text \<open>The values the declarations at the top of the file give them, when the worker is loaded.\<close>

definition initial_worker :: worker where
  "initial_worker =
     \<lparr>serialPort = False, serialReader = False, serialWriter = False, usbDevice = False,
      stopUsbLoop = False, queue = [], state = JString ''idle'', ackd = True\<rparr>"

subsection \<open>\<open>handleQueue\<close> and \<open>writeCommand\<close>\<close>

text \<open>\<open>state == 'idle' || state == 'collecting'\<close>, left to right.\<close>

definition state_accepts :: "runtime \<Rightarrow> json \<Rightarrow> exn + bool" where
  "state_accepts rt s =
     (case loosely_equals rt s ''idle'' of
        Inl e \<Rightarrow> Inl e
      | Inr idle \<Rightarrow> if idle then Inr True else loosely_equals rt s ''collecting'')"

text \<open>
  \<open>handleQueue\<close> up to its only \<open>await\<close>, which is its last statement: the worker changes
  nothing after it. An exception of the comparison rejects the promise of the call.
\<close>

definition handleQueue :: "runtime \<Rightarrow> worker \<Rightarrow> worker \<times> effect list" where
  "handleQueue rt w =
     (if \<not> serialWriter w then (w, [])
      else
        (case state_accepts rt (state w) of
           Inl e \<Rightarrow> (w, [UnhandledRejection])
         | Inr accepted \<Rightarrow>
             if accepted \<and> ackd w then
               (case queue w of
                  [] \<Rightarrow> (w, [])
                | cmd # rest \<Rightarrow>
                    (w\<lparr>queue := rest, ackd := False\<rparr>,
                     [PostMessage (Log cmd DirOut), SerialWrite (cmd @ [CHR 0x0A])]))
             else (w, [])))"

definition writeCommand :: "runtime \<Rightarrow> string \<Rightarrow> worker \<Rightarrow> worker \<times> effect list" where
  "writeCommand rt command w = handleQueue rt (w\<lparr>queue := queue w @ [command]\<rparr>)"

subsection \<open>The body of \<open>readSerialLoop\<close>\<close>

text \<open>
  The block of the inner \<open>try\<close>, with the exception that ends it, if one does, and the
  worker and the messages as they are then.
\<close>

definition decode_line_body :: "runtime \<Rightarrow> string \<Rightarrow> worker \<Rightarrow> worker \<times> effect list \<times> exn option" where
  "decode_line_body rt line w =
     (case JSON_parse rt line of
        None \<Rightarrow> (w, [], Some SyntaxError)
      | Some data \<Rightarrow>
          (case property data ''acknowledge'' of
             Inl e \<Rightarrow> (w, [], Some e)
           | Inr acknowledge \<Rightarrow>
               (let w1 = (case acknowledge of
                            None \<Rightarrow> w
                          | Some a \<Rightarrow> if truthy a then w\<lparr>ackd := True\<rparr> else w)
                in case property data ''evm_state'' of
                     Inl e \<Rightarrow> (w1, [], Some e)
                   | Inr evm_state \<Rightarrow>
                       (let w2 = (case evm_state of
                                    None \<Rightarrow> w1
                                  | Some s \<Rightarrow> if truthy s then w1\<lparr>state := s\<rparr> else w1)
                        in case property data ''register'' of
                             Inl e \<Rightarrow> (w2, [], Some e)
                           | Inr None \<Rightarrow> (w2, [], None)
                           | Inr (Some register) \<Rightarrow>
                               if truthy register then
                                 (case property register ''address'' of
                                    Inl e \<Rightarrow> (w2, [], Some e)
                                  | Inr addr \<Rightarrow>
                                      (case property register ''value'' of
                                         Inl e \<Rightarrow> (w2, [], Some e)
                                       | Inr val \<Rightarrow>
                                           (w2, [PostMessage (ProcessedRegisterData addr val)], None)))
                               else (w2, [], None)))))"

text \<open>The \<open>try\<close> statement: its \<open>catch\<close> clause is empty, so it ends normally whatever the block did.\<close>

definition decode_line :: "runtime \<Rightarrow> string \<Rightarrow> worker \<Rightarrow> worker \<times> effect list" where
  "decode_line rt line w = (case decode_line_body rt line w of (w', out, e) \<Rightarrow> (w', out))"

text \<open>
  One turn of the loop for a line that is not \<open>null\<close>: the first line feed is taken out of
  the line, the line is logged, decoded, and \<open>handleQueue\<close> is called.
\<close>

definition onLine :: "runtime \<Rightarrow> string \<Rightarrow> worker \<Rightarrow> worker \<times> effect list" where
  "onLine rt line0 w =
     (let line = remove1 (CHR 0x0A) line0 in
      case decode_line rt line w of
        (w1, out1) \<Rightarrow>
          (case handleQueue rt w1 of
             (w2, out2) \<Rightarrow> (w2, PostMessage (Log line DirIn) # out1 @ out2)))"

subsection \<open>\<open>handleConnect\<close> and \<open>handleDisconnect\<close>\<close>

text \<open>
  What the browser answers to the calls of \<open>handleConnect\<close>: the number of ports and of
  devices granted, and for each call that can throw or reject, the message of the error
  (\<open>None\<close> when the call succeeds).
\<close>

record connect_env =
  serial_getPorts :: "string + nat"
  serialPort_open :: "string option"
  writable_getWriter :: "string option"
  readable_getReader :: "string option"
  usb_getDevices :: "string + nat"
  usbDevice_open :: "string option"
  usbDevice_selectConfiguration :: "string option"
  usbDevice_claimInterface :: "string option"

text \<open>The \<open>catch\<close> clause of \<open>handleConnect\<close>.\<close>

definition connect_failed :: "string \<Rightarrow> worker \<Rightarrow> worker \<times> effect list" where
  "connect_failed message w =
     (w, [PostMessage (Log (''Worker connect error: '' @ message) DirSystem),
          PostMessage (Status (''Error: '' @ message))])"

definition handleConnect :: "connect_env \<Rightarrow> worker \<Rightarrow> worker \<times> effect list" where
  "handleConnect env w =
     (case serial_getPorts env of
        Inl m \<Rightarrow> connect_failed m w
      | Inr ports \<Rightarrow>
          if ports = 0 then connect_failed ''No serial port granted.'' w
          else
            (let w1 = w\<lparr>serialPort := True\<rparr> in
             case serialPort_open env of
               Some m \<Rightarrow> connect_failed m w1
             | None \<Rightarrow>
                 (case writable_getWriter env of
                    Some m \<Rightarrow> connect_failed m w1
                  | None \<Rightarrow>
                      (let w2 = w1\<lparr>serialWriter := True\<rparr> in
                       case readable_getReader env of
                         Some m \<Rightarrow> connect_failed m w2
                       | None \<Rightarrow>
                           (let w3 = w2\<lparr>serialReader := True\<rparr> in
                            case usb_getDevices env of
                              Inl m \<Rightarrow> connect_failed m w3
                            | Inr devices \<Rightarrow>
                                if devices = 0 then connect_failed ''No USB device granted.'' w3
                                else
                                  (let w4 = w3\<lparr>usbDevice := True\<rparr> in
                                   case usbDevice_open env of
                                     Some m \<Rightarrow> connect_failed m w4
                                   | None \<Rightarrow>
                                       (case usbDevice_selectConfiguration env of
                                          Some m \<Rightarrow> connect_failed m w4
                                        | None \<Rightarrow>
                                            (case usbDevice_claimInterface env of
                                               Some m \<Rightarrow> connect_failed m w4
                                             | None \<Rightarrow>
                                                 (w4, [PostMessage (Status ''Connected''),
                                                       Call_readSerialLoop])))))))))"

text \<open>
  \<open>handleDisconnect\<close>. The \<open>serialReader\<close> of this worker is the function \<open>readLine\<close>,
  which has no \<open>cancel\<close>: once a line reader exists, \<open>serialReader.cancel()\<close> throws a
  TypeError and the rest of the function is not run. The browser tells whether the port is
  readable and the device opened, and whether closing them fails.
\<close>

record disconnect_env =
  serialPort_readable :: bool
  serialPort_close :: "string option"
  usbDevice_opened :: bool
  usbDevice_close :: "string option"

definition handleDisconnect :: "disconnect_env \<Rightarrow> worker \<Rightarrow> worker \<times> effect list" where
  "handleDisconnect env w =
     (let w0 = w\<lparr>stopUsbLoop := True\<rparr> in
      if serialReader w0 then (w0, [UnhandledRejection])
      else
        (let w1 = (if serialWriter w0 then w0\<lparr>serialWriter := False\<rparr> else w0) in
         if serialPort w1 \<and> serialPort_readable env \<and> serialPort_close env \<noteq> None
         then (w1, [UnhandledRejection])
         else
           (let w2 = (if serialPort w1 \<and> serialPort_readable env
                      then w1\<lparr>serialPort := False\<rparr> else w1) in
            if usbDevice w2 \<and> usbDevice_opened env \<and> usbDevice_close env \<noteq> None
            then (w2, [UnhandledRejection])
            else
              (let w3 = (if usbDevice w2 \<and> usbDevice_opened env
                         then w2\<lparr>usbDevice := False\<rparr> else w2) in
               (w3, [PostMessage (Status ''Disconnected'')])))))"

subsection \<open>\<open>self.onmessage\<close>\<close>

text \<open>
  The data of a message, by its \<open>type\<close>; \<open>connect\<close> and \<open>disconnect\<close> carry the answers of
  the browser. A type the \<open>switch\<close> does not know does nothing. \<open>readUsbLoop\<close> clears
  \<open>stopUsbLoop\<close> when it is called.
\<close>

datatype request =
  Connect connect_env
  | Disconnect disconnect_env
  | Write string
  | StartStream string
  | StopStream
  | OtherType

fun onmessage :: "runtime \<Rightarrow> request \<Rightarrow> worker \<Rightarrow> worker \<times> effect list" where
  "onmessage rt (Connect env) w = handleConnect env w"
| "onmessage rt (Disconnect env) w = handleDisconnect env w"
| "onmessage rt (Write command) w = writeCommand rt command w"
| "onmessage rt (StartStream command) w =
     (case writeCommand rt command w of
        (w1, out) \<Rightarrow> (w1\<lparr>stopUsbLoop := False\<rparr>, out @ [Call_readUsbLoop]))"
| "onmessage rt StopStream w = writeCommand rt ''stop 1'' (w\<lparr>stopUsbLoop := True\<rparr>)"
| "onmessage rt OtherType w = (w, [])"

subsection \<open>Runs of the worker\<close>

text \<open>
  The worker is single-threaded: between two \<open>await\<close>s nothing else runs. An event is a
  message from the application or a line the serial loop got from its line reader, and a
  run handles a list of events in order, collecting the effects.
\<close>

datatype event = Message request | SerialLine string

fun step :: "runtime \<Rightarrow> event \<Rightarrow> worker \<Rightarrow> worker \<times> effect list" where
  "step rt (Message r) w = onmessage rt r w"
| "step rt (SerialLine line) w = onLine rt line w"

fun run :: "runtime \<Rightarrow> event list \<Rightarrow> worker \<Rightarrow> worker \<times> effect list" where
  "run rt [] w = (w, [])"
| "run rt (ev # evs) w =
     (case step rt ev w of
        (w1, out1) \<Rightarrow> (case run rt evs w1 of (w2, out2) \<Rightarrow> (w2, out1 @ out2)))"

text \<open>
  \<open>readSerialLoop\<close> on a whole stream, when no message arrives meanwhile: every line of the
  line reader goes through \<open>onLine\<close>; an error of the reader is logged and ends the loop.
\<close>

definition readSerialLoop :: "runtime \<Rightarrow> stream_end \<Rightarrow> string list \<Rightarrow> worker \<Rightarrow> worker \<times> effect list" where
  "readSerialLoop rt e chunks w =
     (case readLines e [] chunks of
        (lines, err) \<Rightarrow>
          (case run rt (map SerialLine lines) w of
             (w', out) \<Rightarrow>
               (w', out @
                  (case err of
                     None \<Rightarrow> []
                   | Some m \<Rightarrow>
                       [PostMessage (Log (''Worker serial read error: '' @ m) DirSystem)]))))"

subsection \<open>What is observed of a run\<close>

text \<open>The texts written to the serial port, in order.\<close>

fun sends :: "effect list \<Rightarrow> string list" where
  "sends [] = []"
| "sends (SerialWrite s # out) = s # sends out"
| "sends (x # out) = sends out"

text \<open>The commands an event puts into the queue.\<close>

fun enqueued :: "event \<Rightarrow> string list" where
  "enqueued (Message (Write command)) = [command]"
| "enqueued (Message (StartStream command)) = [command]"
| "enqueued (Message StopStream) = [''stop 1'']"
| "enqueued ev = []"

text \<open>
  An event acknowledges when it is a line whose decoding sets \<open>ackd\<close>. The commands in
  flight are those sent since the last acknowledgment: \<open>in_flight\<close> lists their number after
  each event of a run that starts with \<open>n\<close> of them.
\<close>

fun acknowledges :: "runtime \<Rightarrow> event \<Rightarrow> worker \<Rightarrow> bool" where
  "acknowledges rt (SerialLine line) w =
     ackd (fst (decode_line rt (remove1 (CHR 0x0A) line) (w\<lparr>ackd := False\<rparr>)))"
| "acknowledges rt (Message r) w = False"

fun in_flight :: "runtime \<Rightarrow> nat \<Rightarrow> event list \<Rightarrow> worker \<Rightarrow> nat list" where
  "in_flight rt n [] w = []"
| "in_flight rt n (ev # evs) w =
     (let n1 = (if acknowledges rt ev w then 0 else n) + length (sends (snd (step rt ev w)))
      in n1 # in_flight rt n1 evs (fst (step rt ev w)))"

subsection \<open>Lines that are records, and the values of the examples\<close>

text \<open>A line is a structured record when \<open>JSON.parse\<close> makes an object of it.\<close>

fun is_record :: "json \<Rightarrow> bool" where
  "is_record (JObject kvs) = True"
| "is_record v = False"

text \<open>
  A runtime for the examples: it knows four lines and takes every other text for malformed
  JSON, and it compares a state with a string as JavaScript does when the state is a string.
  With it, the answers of a browser that grants one port and one device and lets every call
  succeed, and a list of events: two commands, a line that is not JSON, and three
  acknowledgments.
\<close>

definition example_runtime :: runtime where
  \<open>example_runtime =
     \<lparr>JSON_parse = (\<lambda>s.
        if s = ''{"acknowledge":true}'' then Some (JObject [(''acknowledge'', JBool True)])
        else if s = ''{"evm_state":"collecting"}'' then Some (JObject [(''evm_state'', JString ''collecting'')])
        else if s = ''{"register":{"address":3,"value":42}}''
          then Some (JObject [(''register'', JObject [(''address'', JNumber (Num 3)), (''value'', JNumber (Num 42))])])
        else if s = ''null'' then Some JNull
        else None),
      loosely_equals = (\<lambda>v s. Inr (v = JString s))\<rparr>\<close>

definition all_granted :: connect_env where
  "all_granted =
     \<lparr>serial_getPorts = Inr 1, serialPort_open = None, writable_getWriter = None,
      readable_getReader = None, usb_getDevices = Inr 1, usbDevice_open = None,
      usbDevice_selectConfiguration = None, usbDevice_claimInterface = None\<rparr>"

definition example_events :: "event list" where
  \<open>example_events =
     [Message (Write ''b''), Message (Write ''c''), SerialLine ''noise'',
      SerialLine ''{"acknowledge":true}'', SerialLine ''{"acknowledge":true}'',
      SerialLine ''{"acknowledge":true}''  ]\<close>

section \<open>The text channel of the earlier version: \<open>processTextBuffer\<close>\<close>

text \<open>
  In \<open>ti-ina229/INA229_worker.js\<close> the serial reader yields chunks of bytes.
  \<open>readSerialLoop\<close> appends each chunk to \<open>serialReadBuffer\<close> and calls
  \<open>processTextBuffer\<close>, which decodes the whole buffer, handles the lines before the last
  line feed and drops their bytes from the buffer. This version has no queue and reads only
  \<open>register\<close> from a line.

  \<open>textDecoder.decode\<close> and \<open>textEncoder.encode\<close> (UTF-8) are parameters of the model, like
  \<open>JSON.parse\<close>. Neither throws: the decoder is not a fatal one.
\<close>

record codec =
  textDecoder_decode :: "u8 list \<Rightarrow> string"
  textEncoder_encode :: "string \<Rightarrow> u8 list"

text \<open>
  \<open>text.lastIndexOf\<close> and \<open>text.split\<close>, whose pattern here is one character, the line
  feed: the index of its last occurrence (\<open>None\<close> for -1), and the pieces between its
  occurrences, one more than there are occurrences.
\<close>

fun lastIndexOf :: "string \<Rightarrow> char \<Rightarrow> nat option" where
  "lastIndexOf [] ch = None"
| "lastIndexOf (c # cs) ch =
     (case lastIndexOf cs ch of
        Some i \<Rightarrow> Some (Suc i)
      | None \<Rightarrow> if c = ch then Some 0 else None)"

fun split :: "string \<Rightarrow> char \<Rightarrow> string list" where
  "split [] ch = [[]]"
| "split (c # cs) ch =
     (if c = ch then [] # split cs ch
      else (case split cs ch of
              [] \<Rightarrow> [[c]]
            | piece # pieces \<Rightarrow> (c # piece) # pieces))"

text \<open>
  \<open>line.trim()\<close> takes the white space and line terminators from both ends. Of the
  characters of the model these are tab, line feed, vertical tab, form feed, carriage
  return, space and no-break space.
\<close>

definition white_space :: "char \<Rightarrow> bool" where
  "white_space c =
     (c = CHR 0x09 \<or> c = CHR 0x0A \<or> c = CHR 0x0B \<or> c = CHR 0x0C \<or> c = CHR 0x0D \<or>
      c = CHR 0x20 \<or> c = CHR 0xA0)"

definition trim :: "string \<Rightarrow> string" where
  "trim s = rev (dropWhile white_space (rev (dropWhile white_space s)))"

text \<open>
  The inner \<open>try\<close> statement, for a trimmed line: the \<open>register\<close> message, or nothing when
  \<open>JSON.parse\<close> or the property access throws or \<open>data.register\<close> is not truthy.
\<close>

definition register_of_line :: "runtime \<Rightarrow> string \<Rightarrow> effect list" where
  "register_of_line rt trimmed =
     (case JSON_parse rt trimmed of
        None \<Rightarrow> []
      | Some data \<Rightarrow>
          (case property data ''register'' of
             Inl e \<Rightarrow> []
           | Inr None \<Rightarrow> []
           | Inr (Some register) \<Rightarrow>
               if truthy register then
                 (case property register ''address'' of
                    Inl e \<Rightarrow> []
                  | Inr addr \<Rightarrow>
                      (case property register ''value'' of
                         Inl e \<Rightarrow> []
                       | Inr val \<Rightarrow> [PostMessage (ProcessedRegisterData addr val)]))
               else []))"

text \<open>The function given to \<open>forEach\<close>: a line that is empty once trimmed is passed over.\<close>

definition forEach_line :: "runtime \<Rightarrow> string \<Rightarrow> effect list" where
  "forEach_line rt line =
     (let trimmed = trim line in
      if trimmed \<noteq> [] then PostMessage (Log trimmed DirIn) # register_of_line rt trimmed
      else [])"

definition processTextBuffer :: "codec \<Rightarrow> runtime \<Rightarrow> u8 list \<Rightarrow> u8 list \<times> effect list" where
  "processTextBuffer c rt serialReadBuffer =
     (let text = textDecoder_decode c serialReadBuffer in
      case lastIndexOf text (CHR 0x0A) of
        None \<Rightarrow> (serialReadBuffer, [])
      | Some lastNewline \<Rightarrow>
          (let linesToProcess = take lastNewline text;
               out = concat (map (forEach_line rt) (split linesToProcess (CHR 0x0A)));
               bytesToProcess = length (textEncoder_encode c (take (lastNewline + 1) text))
           in (drop bytesToProcess serialReadBuffer, out)))"

text \<open>
  \<open>readSerialLoop\<close> of this version, on the chunks of a stream and the buffer as it is: on
  \<open>done\<close> it leaves the loop and does nothing more; an error of the reader is logged.
\<close>

fun readSerialLoop_ti :: "codec \<Rightarrow> runtime \<Rightarrow> stream_end \<Rightarrow> u8 list \<Rightarrow> u8 list list \<Rightarrow> u8 list \<times> effect list" where
  "readSerialLoop_ti c rt e serialReadBuffer [] =
     (case e of
        Done \<Rightarrow> (serialReadBuffer, [])
      | Failed m \<Rightarrow>
          (serialReadBuffer, [PostMessage (Log (''Worker serial read error: '' @ m) DirSystem)]))"
| "readSerialLoop_ti c rt e serialReadBuffer (chunk # chunks) =
     (case processTextBuffer c rt (serialReadBuffer @ chunk) of
        (buffer1, out1) \<Rightarrow>
          (case readSerialLoop_ti c rt e buffer1 chunks of
             (buffer2, out2) \<Rightarrow> (buffer2, out1 @ out2)))"

text \<open>The lines a list of effects logs as received, in order.\<close>

fun lines_in :: "effect list \<Rightarrow> string list" where
  "lines_in [] = []"
| "lines_in (PostMessage (Log line DirIn) # out) = line # lines_in out"
| "lines_in (x # out) = lines_in out"

text \<open>
  The codec of ASCII: byte \<open>n\<close> is character \<open>n\<close>. On bytes and characters below 128
  this is what the UTF-8 decoder and encoder do, and a codec is faithful on ASCII when it
  agrees with it there.
\<close>

definition byte_char :: "u8 \<Rightarrow> char" where
  "byte_char b = char_of (unat b)"

definition char_byte :: "char \<Rightarrow> u8" where
  "char_byte ch = of_char ch"

definition ascii_codec :: codec where
  "ascii_codec = \<lparr>textDecoder_decode = map byte_char, textEncoder_encode = map char_byte\<rparr>"


section \<open>Properties of the line framer\<close>

lemma indexOf_append:
  "indexOf s pat = Some i \<Longrightarrow> indexOf (s @ t) pat = Some i"
proof (induction s arbitrary: i)
  case Nil
  then show ?case by (cases t) (simp_all split: if_splits)
next
  case (Cons c cs)
  from indexOf_bound[OF Cons.prems] have len: "length pat \<le> length (c # cs)" by simp
  then have tk: "take (length pat) ((c # cs) @ t) = take (length pat) (c # cs)"
    by (simp del: take_Suc_Cons append_Cons)
  show ?case
  proof (cases "take (length pat) (c # cs) = pat")
    case True
    then show ?thesis using Cons.prems tk by simp
  next
    case False
    then obtain j where j: "indexOf cs pat = Some j" "i = Suc j"
      using Cons.prems by auto
    from Cons.IH[OF j(1)] show ?thesis using False tk j(2) by simp
  qed
qed

lemma indexOf_CRLF_None: "indexOf l CRLF = None \<longleftrightarrow> \<not> contains_CRLF l"
  by (induction l rule: contains_CRLF.induct) (auto simp: CRLF_def)

lemma indexOf_line:
  "\<not> contains_CRLF l \<Longrightarrow> indexOf (l @ CRLF @ t) CRLF = Some (length l)"
  by (induction l rule: contains_CRLF.induct) (auto simp: CRLF_def)

lemma next_line_line:
  "\<not> contains_CRLF l \<Longrightarrow> next_line (l @ CRLF @ t) = (Some l, t)"
  by (simp add: next_line_def indexOf_line) (simp add: CRLF_def)

lemma next_line_rest:
  "\<not> contains_CRLF rest \<Longrightarrow> next_line rest = (if rest = [] then None else Some rest, [])"
  using indexOf_CRLF_None[of rest] by (simp add: next_line_def)

lemma readLine_next_line:
  "\<exists>l b' cs'. readLine Done b cs = Inr (l, b', cs') \<and> next_line (b @ concat cs) = (l, b' @ concat cs')"
proof (induction cs arbitrary: b)
  case Nil
  then show ?case by (auto simp: next_line_def split: option.splits)
next
  case (Cons c cs)
  show ?case
  proof (cases "indexOf b CRLF")
    case None
    then show ?thesis using Cons[of "b @ c"] by simp
  next
    case (Some i)
    have le: "i + 2 \<le> length b" using indexOf_bound[OF Some] by (simp add: CRLF_def)
    have "indexOf (b @ concat (c # cs)) CRLF = Some i" using Some by (rule indexOf_append)
    then show ?thesis using Some le by (simp add: next_line_def)
  qed
qed

lemma readLines_lines:
  assumes "\<forall>l\<in>set ls. \<not> contains_CRLF l" "\<not> contains_CRLF rest"
    "b @ concat cs = concat (map (\<lambda>l. l @ CRLF) ls) @ rest"
  shows "readLines Done b cs = (ls @ (if rest = [] then [] else [rest]), None)"
  using assms
proof (induction ls arbitrary: b cs)
  case Nil
  then have joined: "b @ concat cs = rest" by simp
  obtain l b' cs' where r: "readLine Done b cs = Inr (l, b', cs')"
      "next_line (b @ concat cs) = (l, b' @ concat cs')"
    using readLine_next_line[of b cs] by blast
  from r(2) have l: "l = (if rest = [] then None else Some rest)" and e: "b' @ concat cs' = []"
    unfolding joined next_line_rest[OF Nil.prems(2)] by simp_all
  show ?case
  proof (cases "rest = []")
    case True
    then show ?thesis using r(1) l by (subst readLines.simps) simp
  next
    case False
    obtain l2 b2 cs2 where r2: "readLine Done b' cs' = Inr (l2, b2, cs2)"
      "next_line (b' @ concat cs') = (l2, b2 @ concat cs2)"
      using readLine_next_line[of b' cs'] by blast
    from r2(2) have "l2 = None" unfolding e by (simp add: next_line_def CRLF_def)
    then have "readLines Done b' cs' = ([], None)"
      using r2(1) by (subst readLines.simps) simp
    then show ?thesis using r(1) l False by (subst readLines.simps) simp
  qed
next
  case (Cons x ls)
  let ?T = "concat (map (\<lambda>l. l @ CRLF) ls) @ rest"
  have joined: "b @ concat cs = x @ CRLF @ ?T" using Cons.prems(3) by simp
  have x: "\<not> contains_CRLF x" using Cons.prems(1) by simp
  obtain l b' cs' where r: "readLine Done b cs = Inr (l, b', cs')"
      "next_line (b @ concat cs) = (l, b' @ concat cs')"
    using readLine_next_line[of b cs] by blast
  from r(2) have l: "l = Some x" and e: "b' @ concat cs' = ?T"
    unfolding joined next_line_line[OF x] by simp_all
  have "readLines Done b' cs' = (ls @ (if rest = [] then [] else [rest]), None)"
    using Cons.prems(1,2) e by (intro Cons.IH) simp_all
  then show ?case using r(1) l by (subst readLines.simps) simp
qed

subsection \<open>The framer of the earlier version on ASCII text\<close>

lemma lines_in_append: "lines_in (a @ b) = lines_in a @ lines_in b"
  by (induction a rule: lines_in.induct) simp_all

lemma lines_in_register: "lines_in (register_of_line rt t) = []"
  by (simp add: register_of_line_def split: option.splits sum.splits)



lemma split_not_empty: "split s ch \<noteq> []"
  by (induction s) (simp_all split: list.splits)













lemma byte_char_char_byte: "byte_char (char_byte ch) = ch"
proof -
  have "unat (of_char ch :: u8) = unat (of_nat (of_char ch) :: u8)"
    by (simp only: of_nat_of_char)
  also have "\<dots> = of_char ch mod 256" by (simp add: unat_of_nat)
  also have "\<dots> = of_char ch" by simp
  finally show ?thesis by (simp add: byte_char_def char_byte_def)
qed


lemma ascii_decode: "textDecoder_decode ascii_codec (map char_byte s) = s"
  by (simp add: ascii_codec_def byte_char_char_byte comp_def)

lemma ascii_encode_length: "length (textEncoder_encode ascii_codec s) = length s"
  by (simp add: ascii_codec_def)

lemmas older_eval =
  processTextBuffer_def ascii_codec_def byte_char_char_byte forEach_line_def Let_def
  lines_in_register lines_in_append trim_def white_space_def

subsection \<open>Lines are independent of the chunk boundaries\<close>




subsection \<open>End of the stream\<close>

lemma no_CRLF_prefix:
  assumes "\<not> contains_CRLF (b @ t)"
  shows "indexOf b CRLF = None"
proof (cases "indexOf b CRLF")
  case None
  then show ?thesis .
next
  case (Some i)
  then have "indexOf (b @ t) CRLF = Some i" by (rule indexOf_append)
  then show ?thesis using assms indexOf_CRLF_None[of "b @ t"] by simp
qed

lemma readLine_no_delimiter:
  assumes "\<not> contains_CRLF (buffer @ concat chunks)"
  shows "readLine Done buffer chunks =
     Inr (if buffer @ concat chunks = [] then None else Some (buffer @ concat chunks), [], [])"
  using assms
proof (induction chunks arbitrary: buffer)
  case Nil
  then have "indexOf buffer CRLF = None" by (simp add: indexOf_CRLF_None)
  then show ?case by simp
next
  case (Cons chunk chunks)
  have none: "indexOf buffer CRLF = None"
    using Cons.prems by (rule no_CRLF_prefix)
  have "\<not> contains_CRLF ((buffer @ chunk) @ concat chunks)" using Cons.prems by simp
  from Cons.IH[OF this] show ?case using none by simp
qed

text \<open>
  In the later version the reader reports \<open>done\<close> to a call of \<open>readLine\<close> when the
  buffer and all the chunks still to come hold no delimiter. When this remainder is not
  empty the call returns it as a line and leaves the buffer empty, and the next call returns
  \<open>null\<close>: the loop gets the remainder exactly once and nothing after it. When the
  remainder is empty the call returns \<open>null\<close> at once.
\<close>

theorem readLine_end_of_stream:
  assumes "\<not> contains_CRLF (buffer @ concat chunks)"
  shows "readLine Done buffer chunks =
           Inr (if buffer @ concat chunks = [] then None else Some (buffer @ concat chunks), [], []) \<and>
         readLine Done [] [] = Inr (None, [], []) \<and>
         readLines Done buffer chunks =
           (if buffer @ concat chunks = [] then [] else [buffer @ concat chunks], None)"
proof -
  have empty: "readLine Done [] [] = Inr (None, [], [])" by (simp add: CRLF_def)
  note one = readLine_no_delimiter[OF assms]
  have "readLines Done [] [] = ([], None)"
    using empty by (subst readLines.simps) simp
  then have "readLines Done buffer chunks =
      (if buffer @ concat chunks = [] then [] else [buffer @ concat chunks], None)"
    using one by (subst readLines.simps) simp
  with one empty show ?thesis by simp
qed

theorem readLine_end_of_stream_witness:
  "readLine Done ''ta'' [''i'', [], ''l''] = Inr (Some ''tail'', [], []) \<and>
   readLine Done [] [] = Inr (None, [], []) \<and>
   readLines Done ''ta'' [''i'', [], ''l''] = ([''tail''], None) \<and>
   readLines Done [] [[]] = ([], None)"
  using readLine_end_of_stream[of "''ta''" "[''i'', [], ''l'']"]
    readLine_end_of_stream[of "[]" "[[]]"]
  by simp

text \<open>
  Claim C6 on the earlier version. Its \<open>readSerialLoop\<close> leaves the loop on \<open>done\<close>
  without another call of \<open>processTextBuffer\<close>, and \<open>processTextBuffer\<close> handles only what
  stands before a line feed: whatever the buffer holds when the stream ends stays in it and
  is never logged. On the chunks \<open>"ta"\<close>, \<open>"il"\<close> and then \<open>done\<close> nothing is logged and
  the bytes of \<open>"tail"\<close> remain in \<open>serialReadBuffer\<close>, where the line reader of the later
  version returns \<open>"tail"\<close>.
\<close>

theorem readSerialLoop_ti_drops_remainder:
  "readSerialLoop_ti c rt Done serialReadBuffer [] = (serialReadBuffer, []) \<and>
   readSerialLoop_ti ascii_codec example_runtime Done []
     [map char_byte ''ta'', map char_byte ''il''] = (map char_byte ''tail'', []) \<and>
   readLines Done [] [''ta'', ''il''] = ([''tail''], None)"
proof (intro conjI)
  show "readSerialLoop_ti c rt Done serialReadBuffer [] = (serialReadBuffer, [])" by simp
  show "readSerialLoop_ti ascii_codec example_runtime Done []
     [map char_byte ''ta'', map char_byte ''il''] = (map char_byte ''tail'', [])"
    by (simp add: older_eval)
  show "readLines Done [] [''ta'', ''il''] = ([''tail''], None)"
    using readLines_lines[of "[]" "''tail''" "[]" "[''ta'', ''il'']"] by (simp add: CRLF_def)
qed

section \<open>Properties of the session\<close>

lemma handleQueue_cases:
  "(handleQueue rt w = (w, []) \<or> handleQueue rt w = (w, [UnhandledRejection])) \<or>
   (\<exists>cmd rest. serialWriter w \<and> ackd w \<and> queue w = cmd # rest \<and>
      handleQueue rt w =
        (w\<lparr>queue := rest, ackd := False\<rparr>,
         [PostMessage (Log cmd DirOut), SerialWrite (cmd @ [CHR 0x0A])]))"
  by (auto simp: handleQueue_def split: sum.splits list.splits)

lemma handleQueue_send:
  assumes "sends (snd (handleQueue rt w)) \<noteq> []"
  shows "ackd w \<and> \<not> ackd (fst (handleQueue rt w)) \<and> length (sends (snd (handleQueue rt w))) = 1"
  using assms handleQueue_cases[of rt w] by auto

lemma handleQueue_flight:
  "(if ackd w then 0 else 1) + length (sends (snd (handleQueue rt w))) =
   (if ackd (fst (handleQueue rt w)) then 0 else (1::nat))"
  using handleQueue_cases[of rt w] by auto

lemma handleQueue_fifo:
  "sends (snd (handleQueue rt w)) @ map (\<lambda>cmd. cmd @ [CHR 0x0A]) (queue (fst (handleQueue rt w))) =
   map (\<lambda>cmd. cmd @ [CHR 0x0A]) (queue w)"
  using handleQueue_cases[of rt w] by auto

lemma decode_line_keeps:
  "queue (fst (decode_line rt line w)) = queue w"
  "serialWriter (fst (decode_line rt line w)) = serialWriter w"
  "sends (snd (decode_line rt line w)) = []"
  by (auto simp: decode_line_def decode_line_body_def Let_def
      split: option.splits sum.splits if_splits)

lemma decode_line_ackd:
  "ackd (fst (decode_line rt line w)) =
   (ackd w \<or> ackd (fst (decode_line rt line (w\<lparr>ackd := False\<rparr>))))"
  by (auto simp: decode_line_def decode_line_body_def Let_def
      split: option.splits sum.splits if_splits)

lemma sends_append: "sends (a @ b) = sends a @ sends b"
  by (induction a rule: sends.induct) simp_all

lemma handleConnect_keeps:
  "queue (fst (handleConnect env w)) = queue w"
  "state (fst (handleConnect env w)) = state w"
  "ackd (fst (handleConnect env w)) = ackd w"
  "sends (snd (handleConnect env w)) = []"
  by (auto simp: handleConnect_def connect_failed_def Let_def split: sum.splits option.splits)

lemma handleDisconnect_keeps:
  "queue (fst (handleDisconnect env w)) = queue w"
  "state (fst (handleDisconnect env w)) = state w"
  "ackd (fst (handleDisconnect env w)) = ackd w"
  "sends (snd (handleDisconnect env w)) = []"
  by (auto simp: handleDisconnect_def Let_def)

lemma onLine_eq:
  "onLine rt line w =
     (fst (handleQueue rt (fst (decode_line rt (remove1 (CHR 0x0A) line) w))),
      PostMessage (Log (remove1 (CHR 0x0A) line) DirIn) #
        snd (decode_line rt (remove1 (CHR 0x0A) line) w) @
        snd (handleQueue rt (fst (decode_line rt (remove1 (CHR 0x0A) line) w))))"
  by (simp add: onLine_def Let_def case_prod_beta)

lemma step_flight:
  "(if acknowledges rt ev w then 0 else if ackd w then 0 else 1) + length (sends (snd (step rt ev w))) =
   (if ackd (fst (step rt ev w)) then 0 else (1::nat))"
proof (cases ev)
  case (SerialLine line)
  let ?w1 = "fst (decode_line rt (remove1 (CHR 0x0A) line) w)"
  have a: "ackd ?w1 = (ackd w \<or> acknowledges rt ev w)"
    using decode_line_ackd[of rt "remove1 (CHR 0x0A) line" w] SerialLine by simp
  have "(if ackd ?w1 then 0 else 1) + length (sends (snd (handleQueue rt ?w1))) =
        (if ackd (fst (handleQueue rt ?w1)) then 0 else (1::nat))"
    by (rule handleQueue_flight)
  then show ?thesis
    using a SerialLine by (auto simp: onLine_eq sends_append decode_line_keeps split: if_splits)
next
  case (Message r)
  show ?thesis
  proof (cases r)
    case (Connect env)
    then show ?thesis using Message by (simp add: handleConnect_keeps)
  next
    case (Disconnect env)
    then show ?thesis using Message by (simp add: handleDisconnect_keeps)
  next
    case (Write command)
    then show ?thesis
      using Message handleQueue_flight[of "w\<lparr>queue := queue w @ [command]\<rparr>" rt]
      by (simp add: writeCommand_def)
  next
    case (StartStream command)
    then show ?thesis
      using Message handleQueue_flight[of "w\<lparr>queue := queue w @ [command]\<rparr>" rt]
      by (simp add: writeCommand_def sends_append case_prod_beta)
  next
    case StopStream
    then show ?thesis
      using Message handleQueue_flight[of "w\<lparr>stopUsbLoop := True, queue := queue w @ [''stop 1'']\<rparr>" rt]
      by (simp add: writeCommand_def)
  next
    case OtherType
    then show ?thesis using Message by simp
  qed
qed

lemma step_fifo:
  "sends (snd (step rt ev w)) @ map (\<lambda>cmd. cmd @ [CHR 0x0A]) (queue (fst (step rt ev w))) =
   map (\<lambda>cmd. cmd @ [CHR 0x0A]) (queue w @ enqueued ev)"
proof (cases ev)
  case (SerialLine line)
  let ?w1 = "fst (decode_line rt (remove1 (CHR 0x0A) line) w)"
  show ?thesis
    using handleQueue_fifo[of rt ?w1] SerialLine
    by (simp add: onLine_eq sends_append decode_line_keeps)
next
  case (Message r)
  show ?thesis
  proof (cases r)
    case (Connect env)
    then show ?thesis using Message by (simp add: handleConnect_keeps)
  next
    case (Disconnect env)
    then show ?thesis using Message by (simp add: handleDisconnect_keeps)
  next
    case (Write command)
    then show ?thesis
      using Message handleQueue_fifo[of rt "w\<lparr>queue := queue w @ [command]\<rparr>"]
      by (simp add: writeCommand_def)
  next
    case (StartStream command)
    then show ?thesis
      using Message handleQueue_fifo[of rt "w\<lparr>queue := queue w @ [command]\<rparr>"]
      by (simp add: writeCommand_def sends_append case_prod_beta)
  next
    case StopStream
    then show ?thesis
      using Message handleQueue_fifo[of rt "w\<lparr>stopUsbLoop := True, queue := queue w @ [''stop 1'']\<rparr>"]
      by (simp add: writeCommand_def)
  next
    case OtherType
    then show ?thesis using Message by simp
  qed
qed

lemma in_flight_bound:
  "\<forall>n\<in>set (in_flight rt (if ackd w then 0 else 1) evs w). n \<le> 1"
proof (induction evs arbitrary: w)
  case Nil
  show ?case by simp
next
  case (Cons ev evs)
  let ?w1 = "fst (step rt ev w)"
  have n1: "(if acknowledges rt ev w then 0 else if ackd w then 0 else 1) +
      length (sends (snd (step rt ev w))) = (if ackd ?w1 then 0 else (1::nat))"
    by (rule step_flight)
  have "in_flight rt (if ackd w then 0 else 1) (ev # evs) w =
      (if ackd ?w1 then 0 else 1) # in_flight rt (if ackd ?w1 then 0 else 1) evs ?w1"
    using n1 by (simp add: Let_def)
  then show ?case using Cons.IH[of ?w1] by simp
qed

lemmas session_eval =
  example_runtime_def all_granted_def initial_worker_def handleQueue_def state_accepts_def
  writeCommand_def decode_line_def decode_line_body_def onLine_def handleConnect_def
  connect_failed_def Let_def

subsection \<open>One command in flight\<close>

text \<open>
  Claim C1. \<open>handleQueue\<close> is the only function that writes to the serial port. When it
  sends, \<open>ackd\<close> was true and is false afterwards, and it sends one command. So an event,
  whatever it is (a message of any type, or a line, which ends with a call of
  \<open>handleQueue\<close>), sends at most one command, and only if \<open>ackd\<close> was true before it or its
  line set it; and in every run, from every state of the worker, the number of commands
  sent since the last acknowledgment, counting one for a state that starts with \<open>ackd\<close>
  false, is never above one.
\<close>

theorem single_command_in_flight:
  "(sends (snd (handleQueue rt w)) \<noteq> [] \<longrightarrow>
      ackd w \<and> \<not> ackd (fst (handleQueue rt w)) \<and> length (sends (snd (handleQueue rt w))) = 1) \<and>
   (sends (snd (step rt ev w)) \<noteq> [] \<longrightarrow>
      (ackd w \<or> acknowledges rt ev w) \<and> \<not> ackd (fst (step rt ev w)) \<and>
      length (sends (snd (step rt ev w))) = 1) \<and>
   (\<forall>n\<in>set (in_flight rt (if ackd w then 0 else 1) evs w). n \<le> 1)"
proof (intro conjI impI)
  assume "sends (snd (handleQueue rt w)) \<noteq> []"
  from handleQueue_send[OF this]
  show "ackd w" "\<not> ackd (fst (handleQueue rt w))" "length (sends (snd (handleQueue rt w))) = 1"
    by simp_all
next
  assume s: "sends (snd (step rt ev w)) \<noteq> []"
  have f: "(if acknowledges rt ev w then 0 else if ackd w then 0 else 1) +
      length (sends (snd (step rt ev w))) = (if ackd (fst (step rt ev w)) then 0 else (1::nat))"
    by (rule step_flight)
  have pos: "length (sends (snd (step rt ev w))) > 0" using s by simp
  show "ackd w \<or> acknowledges rt ev w" using f pos by (auto split: if_splits)
  show "\<not> ackd (fst (step rt ev w))" using f pos by (auto split: if_splits)
  show "length (sends (snd (step rt ev w))) = 1" using f pos by (auto split: if_splits)
next
  show "\<forall>n\<in>set (in_flight rt (if ackd w then 0 else 1) evs w). n \<le> 1"
    by (rule in_flight_bound)
qed

theorem single_command_in_flight_witness:
  "sends (snd (handleQueue example_runtime (initial_worker\<lparr>serialWriter := True, queue := [''a'']\<rparr>))) =
     [''a'' @ [CHR 0x0A]] \<and>
   \<not> ackd (fst (handleQueue example_runtime (initial_worker\<lparr>serialWriter := True, queue := [''a'']\<rparr>))) \<and>
   sends (snd (step example_runtime (Message (Write ''b''))
     (initial_worker\<lparr>serialWriter := True, queue := [''a'']\<rparr>))) = [''a'' @ [CHR 0x0A]] \<and>
   in_flight example_runtime 0 example_events (initial_worker\<lparr>serialWriter := True, queue := [''a'']\<rparr>) =
     [1, 1, 1, 1, 1, 0] \<and>
   sends (snd (run example_runtime example_events (initial_worker\<lparr>serialWriter := True, queue := [''a'']\<rparr>))) =
     [''a'' @ [CHR 0x0A], ''b'' @ [CHR 0x0A], ''c'' @ [CHR 0x0A]]"
  using single_command_in_flight[of example_runtime
      "initial_worker\<lparr>serialWriter := True, queue := [''a'']\<rparr>" "Message (Write ''b'')" example_events]
  by (simp add: session_eval example_events_def)

subsection \<open>Order of the commands\<close>

text \<open>
  Claim C7. In every run, from every state of the worker, the texts written to the serial
  port, followed by the commands still in the queue at the end, are the commands in the
  queue at the start followed by the commands enqueued by the events, in order, each with
  its line feed: the commands sent are a beginning of the commands enqueued, in the order
  of their enqueueing, and a command that was sent is no longer in the queue.
\<close>

theorem commands_sent_in_order:
  "sends (snd (run rt evs w)) @ map (\<lambda>cmd. cmd @ [CHR 0x0A]) (queue (fst (run rt evs w))) =
   map (\<lambda>cmd. cmd @ [CHR 0x0A]) (queue w @ concat (map enqueued evs))"
proof (induction evs arbitrary: w)
  case Nil
  show ?case by simp
next
  case (Cons ev evs)
  let ?w1 = "fst (step rt ev w)"
  have "sends (snd (run rt (ev # evs) w)) @
          map (\<lambda>cmd. cmd @ [CHR 0x0A]) (queue (fst (run rt (ev # evs) w))) =
        sends (snd (step rt ev w)) @
          (sends (snd (run rt evs ?w1)) @ map (\<lambda>cmd. cmd @ [CHR 0x0A]) (queue (fst (run rt evs ?w1))))"
    by (simp add: sends_append case_prod_beta)
  also have "\<dots> = sends (snd (step rt ev w)) @
      map (\<lambda>cmd. cmd @ [CHR 0x0A]) (queue ?w1 @ concat (map enqueued evs))"
    by (simp only: Cons.IH)
  also have "\<dots> = map (\<lambda>cmd. cmd @ [CHR 0x0A]) (queue w @ enqueued ev) @
      map (\<lambda>cmd. cmd @ [CHR 0x0A]) (concat (map enqueued evs))"
    using step_fifo[of rt ev w] by (simp only: map_append append_assoc [symmetric])
  finally show ?case by simp
qed

subsection \<open>Connect\<close>

text \<open>
  Claim C5, as the code has it. \<open>handleConnect\<close> assigns none of \<open>queue\<close>, \<open>state\<close> and
  \<open>ackd\<close>: whatever the browser answers, they are after it what they were before it. They
  are empty, \<open>'idle'\<close> and true when the worker is loaded.
\<close>

theorem handleConnect_keeps_session:
  "queue (fst (handleConnect env w)) = queue w \<and>
   state (fst (handleConnect env w)) = state w \<and>
   ackd (fst (handleConnect env w)) = ackd w \<and>
   queue initial_worker = [] \<and> state initial_worker = JString ''idle'' \<and> ackd initial_worker"
  by (simp add: handleConnect_keeps initial_worker_def)

text \<open>
  A command written before the connect is still in the queue when the read loop begins, and
  a command sent and not acknowledged leaves \<open>ackd\<close> false across a second connect.
\<close>

theorem handleConnect_counterexample:
  "queue (fst (run example_runtime
      [Message (Write ''reset''), Message (Connect all_granted)] initial_worker)) = [''reset''] \<and>
   \<not> ackd (fst (run example_runtime
      [Message (Connect all_granted), Message (Write ''reset''), Message (Connect all_granted)]
      initial_worker))"
  by (simp add: session_eval)

subsection \<open>Lines that are not records\<close>

text \<open>
  Claim C9. For a line that \<open>JSON.parse\<close> rejects, or that it parses to a value that is not
  an object (a number, a string, a boolean, an array, \<open>null\<close>), the block of the \<open>try\<close>
  changes nothing in the worker and posts nothing, with or without an exception, and the
  \<open>try\<close> statement, whose \<open>catch\<close> is empty, ends normally: no acknowledgment, no state
  change, no register message, and \<open>queue\<close>, \<open>state\<close> and \<open>ackd\<close> as before.
\<close>

theorem decode_line_ignores_malformed:
  assumes "JSON_parse rt line = None \<or> (\<exists>v. JSON_parse rt line = Some v \<and> \<not> is_record v)"
  shows "decode_line rt line w = (w, []) \<and> (\<exists>e. decode_line_body rt line w = (w, [], e))"
proof -
  have "\<exists>e. decode_line_body rt line w = (w, [], e)"
    using assms
  proof
    assume "JSON_parse rt line = None"
    then show ?thesis by (simp add: decode_line_body_def)
  next
    assume "\<exists>v. JSON_parse rt line = Some v \<and> \<not> is_record v"
    then obtain v where v: "JSON_parse rt line = Some v" "\<not> is_record v" by blast
    then show ?thesis by (cases v) (simp_all add: decode_line_body_def)
  qed
  then show ?thesis by (auto simp: decode_line_def)
qed

theorem decode_line_ignores_malformed_witness:
  "decode_line example_runtime ''not json'' initial_worker = (initial_worker, []) \<and>
   decode_line_body example_runtime ''not json'' initial_worker = (initial_worker, [], Some SyntaxError) \<and>
   decode_line example_runtime ''null'' initial_worker = (initial_worker, [])"
  using decode_line_ignores_malformed[of example_runtime "''not json''" initial_worker]
    decode_line_ignores_malformed[of example_runtime "''null''" initial_worker]
  by (simp add: example_runtime_def decode_line_def decode_line_body_def)

section \<open>Properties of the telemetry decoder\<close>

lemma getUint8_in: "i < length dv \<Longrightarrow> getUint8 dv i = Inr (dv ! i)"
  by (simp add: getUint8_def)

lemma loop32_fold:
  "offset + 4 + n \<le> length dv \<Longrightarrow>
   rawValue_loop32 dv offset n i acc =
     Inr (foldl (\<lambda>a b. push_bit 8 a OR ucast b) acc (take (n - i) (drop (offset + 4 + i) dv)))"
proof (induction dv offset n i acc rule: rawValue_loop32.induct)
  case (1 dv offset n i acc)
  show ?case
  proof (cases "i < n")
    case True
    then have in_range: "offset + 4 + i < length dv" using "1.prems" by simp
    have "take (Suc (n - Suc i)) (drop (offset + 4 + i) dv) =
        dv ! (offset + 4 + i) # take (n - Suc i) (drop (Suc (offset + 4 + i)) dv)"
      using in_range by (simp add: Cons_nth_drop_Suc [symmetric])
    then have split: "take (n - i) (drop (offset + 4 + i) dv) =
        dv ! (offset + 4 + i) # take (n - (i + 1)) (drop (offset + 4 + (i + 1)) dv)"
      using True by (simp add: Suc_diff_Suc)
    show ?thesis
      using True "1.IH"[OF True getUint8_in[OF in_range] "1.prems"]
      by (subst rawValue_loop32.simps) (simp add: getUint8_in[OF in_range] split)
  next
    case False
    then show ?thesis by (subst rawValue_loop32.simps) simp
  qed
qed

lemma loopBig_fold:
  "offset + 4 + n \<le> length dv \<Longrightarrow>
   rawValue_loopBig dv offset n i acc =
     Inr (foldl (\<lambda>a b. push_bit 8 a OR uint b) acc (take (n - i) (drop (offset + 4 + i) dv)))"
proof (induction dv offset n i acc rule: rawValue_loopBig.induct)
  case (1 dv offset n i acc)
  show ?case
  proof (cases "i < n")
    case True
    then have in_range: "offset + 4 + i < length dv" using "1.prems" by simp
    have "take (Suc (n - Suc i)) (drop (offset + 4 + i) dv) =
        dv ! (offset + 4 + i) # take (n - Suc i) (drop (Suc (offset + 4 + i)) dv)"
      using in_range by (simp add: Cons_nth_drop_Suc [symmetric])
    then have split: "take (n - i) (drop (offset + 4 + i) dv) =
        dv ! (offset + 4 + i) # take (n - (i + 1)) (drop (offset + 4 + (i + 1)) dv)"
      using True by (simp add: Suc_diff_Suc)
    show ?thesis
      using True "1.IH"[OF True getUint8_in[OF in_range] "1.prems"]
      by (subst rawValue_loopBig.simps) (simp add: getUint8_in[OF in_range] split)
  next
    case False
    then show ?thesis by (subst rawValue_loopBig.simps) simp
  qed
qed

lemma and_push_take: "push_bit 8 (x::int) AND take_bit 8 y = 0"
  by (rule bit_eqI) (auto simp: bit_and_iff bit_push_bit_iff bit_take_bit_iff)

lemma or_byte_int: "0 \<le> y \<Longrightarrow> y < 256 \<Longrightarrow> push_bit 8 (x::int) OR y = x * 256 + y"
proof -
  assume "0 \<le> y" "y < 256"
  then have "take_bit 8 y = y" by (simp add: take_bit_int_eq_self)
  then have "push_bit 8 x AND y = 0" using and_push_take[of x y] by simp
  then have "push_bit 8 x + y = push_bit 8 x OR y" by (rule disjunctive_add_eq_or)
  then show ?thesis by (simp add: push_bit_eq_mult)
qed

lemma uint_byte: "uint (of_nat V :: u8) = int (V mod 256)"
  by (simp add: unsigned_of_nat take_bit_eq_mod)

lemma length_big_endian: "length (big_endian n V) = n"
  by (induction n arbitrary: V) simp_all

lemma foldl_Big_big_endian:
  "foldl (\<lambda>a b. push_bit 8 a OR uint b) 0 (big_endian n V) = int (V mod 256 ^ n)"
proof (induction n arbitrary: V)
  case 0
  then show ?case by simp
next
  case (Suc n)
  have "V mod (256 * 256 ^ n) = 256 * (V div 256 mod 256 ^ n) + V mod 256"
    by (rule mod_mult2_eq)
  then show ?case
    by (simp add: Suc uint_byte or_byte_int)
qed

lemma bit_length_le: "bit_length n \<le> k \<longleftrightarrow> n < 2 ^ k"
proof (induction k arbitrary: n)
  case 0
  show ?case by (subst bit_length.simps) simp
next
  case (Suc k)
  have "n div 2 < 2 ^ k \<longleftrightarrow> n < 2 * 2 ^ k" by auto
  then show ?case
    by (subst bit_length.simps) (simp add: Suc)
qed

lemma Number_BigInt_exact:
  assumes "0 \<le> v" "v < 2 ^ 53"
  shows "Number_BigInt v = Num (of_int v)"
proof -
  have abs: "\<bar>v\<bar> = v" using assms(1) by simp
  have lt: "nat v < 2 ^ 53" using assms by (simp add: nat_less_iff)
  then have e: "bit_length (nat v) - 53 = 0" by (simp add: bit_length_le)
  have "nat v < 2 ^ 1024"
    using lt by (rule less_trans) simp
  then have small: "\<not> 2 ^ 1024 \<le> nat v" by simp
  have sg: "sgn v * int (nat v) = v" using assms(1) by (cases "v = 0") simp_all
  show ?thesis
    unfolding Number_BigInt_def Let_def abs e
    using small sg by simp
qed

lemma fold32_of_Big:
  "foldl (\<lambda>a b. push_bit 8 a OR ucast b) (word_of_int a :: int32) bs =
   word_of_int (foldl (\<lambda>a b. push_bit 8 a OR uint b) a bs)"
proof (induction bs arbitrary: a)
  case Nil
  show ?case by simp
next
  case (Cons b bs)
  have "push_bit 8 (word_of_int a :: int32) OR ucast b = word_of_int (push_bit 8 a OR uint b)"
    by (simp add: of_int_or_eq of_int_push_bit of_int_uint)
  then show ?case by (simp add: Cons)
qed

lemma rawValue_of_big_endian:
  assumes "V < 256 ^ n" "V < 2 ^ 53" "n = 4 \<longrightarrow> V < 2 ^ 31"
  shows "rawValue_of (big_endian n V) = Num (of_nat V)"
proof (cases "n > 4")
  case True
  have "Number_BigInt (int V) = Num (of_int (int V))"
    using assms(2) by (intro Number_BigInt_exact) simp_all
  then show ?thesis
    using True assms(1) by (simp add: rawValue_of_def length_big_endian foldl_Big_big_endian)
next
  case False
  have "V < 2 ^ 31"
  proof (cases "n = 4")
    case True
    then show ?thesis using assms(3) by simp
  next
    case n4: False
    then have "n \<le> 3" using False by simp
    then have "(256::nat) ^ n \<le> 256 ^ 3" by (intro power_increasing) simp_all
    then show ?thesis using assms(1) by simp
  qed
  then have "signed_take_bit 31 (int V) = int V"
    by (intro signed_take_bit_int_eq_self) simp_all
  then have "sint (word_of_nat V :: int32) = int V"
    using sint_sbintrunc'[where 'a = 32, of "int V"] by simp
  moreover have "foldl (\<lambda>a b. push_bit 8 a OR ucast b) (0 :: int32) (big_endian n V) = word_of_nat V"
    using fold32_of_Big[of 0 "big_endian n V"] assms(1) by (simp add: foldl_Big_big_endian)
  ultimately show ?thesis
    using False by (simp add: rawValue_of_def length_big_endian)
qed

lemma assemble_rawValue_in:
  assumes "offset + 4 + n \<le> length dv"
  shows "assemble_rawValue dv offset n = Inr (rawValue_of (take n (drop (offset + 4) dv)))"
proof -
  have len: "length (take n (drop (offset + 4) dv)) = n" using assms by simp
  show ?thesis
    unfolding assemble_rawValue_def rawValue_of_def len
    using loop32_fold[OF assms, of 0 0] loopBig_fold[OF assms, of 0 0]
    by simp
qed

lemma scan_body_eq:
  assumes "offset < length dv"
  shows "scan_body dv (offset, ups) =
     (if dv ! offset \<noteq> 0 then Continue (offset + 1, ups)
      else if offset + 4 > length dv \<or> offset + 4 + unat (dv ! (offset + 3)) > length dv
      then Break (offset, ups)
      else Continue (offset + 4 + unat (dv ! (offset + 3)),
             ups @ [\<lparr>address = dv ! (offset + 2),
                      rawValue = rawValue_of (take (unat (dv ! (offset + 3))) (drop (offset + 4) dv))\<rparr>]))"
proof (cases "dv ! offset \<noteq> 0 \<or> offset + 4 > length dv")
  case True
  then show ?thesis
    using assms by (auto simp: scan_body_def getUint8_in)
next
  case False
  then have h: "offset + 2 < length dv" "offset + 3 < length dv" by simp_all
  show ?thesis
  proof (cases "offset + 4 + unat (dv ! (offset + 3)) > length dv")
    case True
    then show ?thesis
      using assms False h by (simp add: scan_body_def getUint8_in)
  next
    case fits: False
    then have "offset + 4 + unat (dv ! (offset + 3)) \<le> length dv" by simp
    from assemble_rawValue_in[OF this] show ?thesis
      using assms False h fits by (simp add: scan_body_def getUint8_in)
  qed
qed

lemma scan_loop_total:
  "\<exists>r. scan_loop dv (offset, ups) = Some (Inr (ups @ r))"
proof (induction "length dv - offset" arbitrary: offset ups rule: less_induct)
  case less
  show ?case
  proof (cases "offset < length dv")
    case False
    then show ?thesis by (subst scan_loop.simps) simp
  next
    case True
    note body = scan_body_eq[OF True, of ups]
    consider (skip) "dv ! offset \<noteq> 0"
      | (stop) "dv ! offset = 0" "offset + 4 > length dv \<or> offset + 4 + unat (dv ! (offset + 3)) > length dv"
      | (rec) "dv ! offset = 0" "\<not> (offset + 4 > length dv \<or> offset + 4 + unat (dv ! (offset + 3)) > length dv)"
      by blast
    then show ?thesis
    proof cases
      case skip
      have "length dv - (offset + 1) < length dv - offset" using True by simp
      from less[OF this, of ups] obtain r where "scan_loop dv (offset + 1, ups) = Some (Inr (ups @ r))" by blast
      then show ?thesis
        using True skip body by (subst scan_loop.simps) simp
    next
      case stop
      then show ?thesis
        using True body by (subst scan_loop.simps) auto
    next
      case rec
      let ?n = "unat (dv ! (offset + 3))"
      let ?u = "\<lparr>address = dv ! (offset + 2), rawValue = rawValue_of (take ?n (drop (offset + 4) dv))\<rparr>"
      have "length dv - (offset + 4 + ?n) < length dv - offset" using True by simp
      from less[OF this, of "ups @ [?u]"] obtain r
        where "scan_loop dv (offset + 4 + ?n, ups @ [?u]) = Some (Inr ((ups @ [?u]) @ r))" by blast
      then have "scan_loop dv (offset, ups) = Some (Inr (ups @ (?u # r)))"
        using True rec body by (subst scan_loop.simps) simp
      then show ?thesis by blast
    qed
  qed
qed

lemma scan_loop_skip:
  assumes "\<forall>b\<in>set pre. b \<noteq> 0" "k \<le> length pre"
  shows "scan_loop (pre @ rest) (k, ups) = scan_loop (pre @ rest) (length pre, ups)"
  using assms(2)
proof (induction "length pre - k" arbitrary: k)
  case 0
  then show ?case by simp
next
  case (Suc d)
  then have k: "k < length pre" by simp
  then have nz: "(pre @ rest) ! k \<noteq> 0" using assms(1) by (simp add: nth_append)
  have lt: "k < length (pre @ rest)" using k by simp
  have "scan_loop (pre @ rest) (k, ups) = scan_loop (pre @ rest) (k + 1, ups)"
    using lt nz scan_body_eq[OF lt, of ups] by (subst scan_loop.simps) simp
  moreover have "scan_loop (pre @ rest) (k + 1, ups) = scan_loop (pre @ rest) (length pre, ups)"
    using Suc k by (intro Suc.hyps(1)) simp_all
  ultimately show ?case by simp
qed

lemma scan_loop_record:
  assumes "length vs = unat N"
  shows "scan_loop (pre @ [0, reserved, A, N] @ vs @ rest) (length pre, ups) =
         scan_loop (pre @ [0, reserved, A, N] @ vs @ rest)
           (length pre + 4 + unat N, ups @ [\<lparr>address = A, rawValue = rawValue_of vs\<rparr>])"
proof -
  let ?dv = "pre @ [0, reserved, A, N] @ vs @ rest"
  have lt: "length pre < length ?dv" by simp
  have at: "?dv ! length pre = 0" "?dv ! (length pre + 2) = A" "?dv ! (length pre + 3) = N"
    by (simp_all add: nth_append)
  have vs: "take (unat N) (drop (length pre + 4) ?dv) = vs"
    using assms by simp
  have fits: "\<not> (length pre + 4 > length ?dv \<or> length pre + 4 + unat N > length ?dv)"
    using assms by simp
  have "scan_body ?dv (length pre, ups) =
      Continue (length pre + 4 + unat N, ups @ [\<lparr>address = A, rawValue = rawValue_of vs\<rparr>])"
    using fits unfolding scan_body_eq[OF lt, of ups] at vs by simp
  then show ?thesis
    using lt by (subst scan_loop.simps) simp
qed

lemma decode_single_record:
  assumes "length vs = unat N"
  shows "decode_transfer ([0, reserved, A, N] @ vs) =
         Some (Inr [PostMessage (ProcessedBulkData [\<lparr>address = A, rawValue = rawValue_of vs\<rparr>])])"
proof -
  have "scan_loop ([0, reserved, A, N] @ vs) (0, []) =
        scan_loop ([0, reserved, A, N] @ vs) (4 + unat N, [\<lparr>address = A, rawValue = rawValue_of vs\<rparr>])"
    using scan_loop_record[OF assms, of "[]" reserved A "[]" "[]"] by simp
  also have "\<dots> = Some (Inr [\<lparr>address = A, rawValue = rawValue_of vs\<rparr>])"
    using assms by (subst scan_loop.simps) simp
  finally show ?thesis by (simp add: decode_transfer_def)
qed

lemma big_endian_numeral:
  "big_endian (numeral k) V = big_endian (pred_numeral k) (V div 256) @ [of_nat V]"
  unfolding numeral_eq_Suc [of k] by simp

lemma bit_length_2_53_plus_1: "bit_length 9007199254740993 = 54"
proof -
  have "bit_length 9007199254740993 \<le> 54" by (simp add: bit_length_le)
  moreover have "\<not> bit_length 9007199254740993 \<le> 53" by (simp add: bit_length_le)
  ultimately show ?thesis by simp
qed

lemma Number_BigInt_2_53_plus_1: "Number_BigInt 9007199254740993 = Num 9007199254740992"
  by (simp only: Number_BigInt_def abs_numeral nat_numeral bit_length_2_53_plus_1 Let_def) simp

lemmas decoder_eval =
  decode_transfer_def scan_loop.simps scan_body_def getUint8_def assemble_rawValue_def
  rawValue_loop32.simps rawValue_loopBig.simps

subsection \<open>Termination of the scan loop\<close>

text \<open>
  Claim C10. For every buffer, of any length and contents, the scan loop of the telemetry
  decoder terminates (here: it returns its update list, and no exception leaves it), from
  every offset and update list it can be in. One iteration, entered with the offset inside
  the buffer, either leaves the loop, or goes on one byte further when the byte at the
  offset is not the sentinel 0, or goes on 4 plus the declared width further, still inside
  or at the end of the buffer, when it has decoded a record.
\<close>

theorem scan_loop_terminates:
  "(\<exists>result. scan_loop dataView (offset, updates) = Some (Inr result)) \<and>
   (offset < length dataView \<longrightarrow>
      (\<exists>s'. scan_body dataView (offset, updates) = Break s') \<or>
      (dataView ! offset \<noteq> 0 \<and>
         (\<exists>updates'. scan_body dataView (offset, updates) = Continue (offset + 1, updates'))) \<or>
      (dataView ! offset = 0 \<and>
         offset + 4 + unat (dataView ! (offset + 3)) \<le> length dataView \<and>
         (\<exists>updates'. scan_body dataView (offset, updates) =
            Continue (offset + 4 + unat (dataView ! (offset + 3)), updates'))))"
proof (intro conjI impI)
  show "\<exists>result. scan_loop dataView (offset, updates) = Some (Inr result)"
    using scan_loop_total[of dataView offset updates] by blast
next
  assume lt: "offset < length dataView"
  show "(\<exists>s'. scan_body dataView (offset, updates) = Break s') \<or>
      (dataView ! offset \<noteq> 0 \<and>
         (\<exists>updates'. scan_body dataView (offset, updates) = Continue (offset + 1, updates'))) \<or>
      (dataView ! offset = 0 \<and>
         offset + 4 + unat (dataView ! (offset + 3)) \<le> length dataView \<and>
         (\<exists>updates'. scan_body dataView (offset, updates) =
            Continue (offset + 4 + unat (dataView ! (offset + 3)), updates')))"
    unfolding scan_body_eq[OF lt, of updates] by auto
qed

theorem scan_loop_terminates_witness:
  "(\<exists>result. scan_loop [1, 0, 0, 5, 2, 0x12, 0x34] (1, []) = Some (Inr result)) \<and>
   scan_body [1, 0, 0, 5, 2, 0x12, 0x34] (1, []) =
     Continue (7, [\<lparr>address = 5, rawValue = Num 4660\<rparr>]) \<and>
   scan_body [1, 0, 0, 5, 2, 0x12, 0x34] (0, []) = Continue (1, [])"
  using scan_loop_terminates[of "[1, 0, 0, 5, 2, 0x12, 0x34]" 1 "[]"]
  by (simp add: decoder_eval)

subsection \<open>Round trip of one encoded record\<close>

text \<open>
  Claim C2, as the code has it. For every address \<open>A\<close>, width \<open>N\<close> (in particular
  \<open>1 \<le> N \<le> 8\<close>) and value \<open>V < 2 ^ (8 * N)\<close> that is also a safe integer
  (\<open>V < 2 ^ 53\<close>) and, at width 4, is below \<open>2 ^ 31\<close>, decoding the buffer that holds
  exactly the encoding of the record posts the single update \<open>{address: A, rawValue: V}\<close>.
\<close>

theorem decode_encoded_record:
  assumes "V < 2 ^ (8 * unat N)" "V < 2 ^ 53" "unat N = 4 \<longrightarrow> V < 2 ^ 31"
  shows "decode_transfer (encode_record reserved A N V) =
         Some (Inr [PostMessage (ProcessedBulkData [\<lparr>address = A, rawValue = Num (of_nat V)\<rparr>])])"
proof -
  have "(256::nat) ^ unat N = 2 ^ (8 * unat N)"
    by (simp add: power_mult)
  then have "V < 256 ^ unat N" using assms(1) by simp
  then have "rawValue_of (big_endian (unat N) V) = Num (of_nat V)"
    using assms(2,3) by (rule rawValue_of_big_endian)
  then show ?thesis
    using decode_single_record[of "big_endian (unat N) V" N reserved A]
    by (simp add: encode_record_def length_big_endian)
qed

theorem decode_encoded_record_witness:
  "encode_record 0 5 2 4660 = [0, 0, 5, 2, 0x12, 0x34] \<and>
   decode_transfer [0, 0, 5, 2, 0x12, 0x34] =
     Some (Inr [PostMessage (ProcessedBulkData [\<lparr>address = 5, rawValue = Num 4660\<rparr>])])"
  using decode_encoded_record[of 4660 2 0 5]
  by (simp add: encode_record_def big_endian_numeral decoder_eval)

text \<open>
  Without the bound \<open>V < 2 ^ 53\<close> the claim fails by the conversion \<open>Number(rawValue)\<close>
  of the wide path: at width 7 the value \<open>2 ^ 53 + 1\<close> comes out as \<open>2 ^ 53\<close>.
\<close>

theorem decode_encoded_record_counterexample:
  "(9007199254740993 :: nat) < 2 ^ (8 * unat (7 :: u8)) \<and>
   decode_transfer (encode_record 0 5 7 9007199254740993) =
     Some (Inr [PostMessage (ProcessedBulkData [\<lparr>address = 5, rawValue = Num 9007199254740992\<rparr>])]) \<and>
   decode_transfer (encode_record 0 5 7 9007199254740993) \<noteq>
     Some (Inr [PostMessage (ProcessedBulkData [\<lparr>address = 5, rawValue = Num 9007199254740993\<rparr>])])"
proof -
  have enc: "encode_record 0 5 7 9007199254740993 = [0, 0, 5, 7, 0x20, 0, 0, 0, 0, 0, 1]"
    by (simp add: encode_record_def big_endian_numeral)
  have dec: "decode_transfer [0, 0, 5, 7, 0x20, 0, 0, 0, 0, 0, 1] =
      Some (Inr [PostMessage (ProcessedBulkData [\<lparr>address = 5, rawValue = Number_BigInt 9007199254740993\<rparr>])])"
    by (simp add: decoder_eval)
  show ?thesis
    unfolding enc dec Number_BigInt_2_53_plus_1 by simp
qed

subsection \<open>Value assembly at width 4\<close>

text \<open>
  The raw value of a record is the unsigned value of its bytes whenever that value is a safe
  integer, except at width 4 from \<open>2 ^ 31\<close> on.
\<close>

lemma unsigned_value_snoc:
  "unsigned_value (bs @ [b]) = unsigned_value bs * 256 + unat b"
proof -
  have "map (\<lambda>i. unat ((bs @ [b]) ! i) * 256 ^ (length bs - i)) [0..<length bs] =
        map (\<lambda>i. (unat (bs ! i) * 256 ^ (length bs - 1 - i)) * 256) [0..<length bs]"
  proof (rule map_cong [OF refl])
    fix i assume "i \<in> set [0..<length bs]"
    then have i: "i < length bs" by simp
    then have "length bs - i = Suc (length bs - 1 - i)" by simp
    then show "unat ((bs @ [b]) ! i) * 256 ^ (length bs - i) =
        (unat (bs ! i) * 256 ^ (length bs - 1 - i)) * 256"
      using i by (simp add: nth_append)
  qed
  then have "(\<Sum>i\<leftarrow>[0..<length bs]. unat ((bs @ [b]) ! i) * 256 ^ (length bs - i)) =
      (\<Sum>i\<leftarrow>[0..<length bs]. unat (bs ! i) * 256 ^ (length bs - 1 - i)) * 256"
    by (simp only: sum_list_mult_const)
  then show ?thesis
    by (simp add: unsigned_value_def)
qed

lemma unsigned_value_bound: "unsigned_value bs < 256 ^ length bs"
proof (induction bs rule: rev_induct)
  case Nil
  show ?case by (simp add: unsigned_value_def)
next
  case (snoc b bs)
  have "unat b < 256" using unsigned_less[of b] by simp
  moreover have "unsigned_value bs + 1 \<le> 256 ^ length bs" using snoc by simp
  then have "(unsigned_value bs + 1) * 256 \<le> 256 ^ length bs * 256" by (rule mult_le_mono1)
  ultimately show ?case by (simp add: unsigned_value_snoc)
qed

lemma foldl_Big_unsigned_value:
  "foldl (\<lambda>a b. push_bit 8 a OR uint b) 0 bs = int (unsigned_value bs)"
proof (induction bs rule: rev_induct)
  case Nil
  show ?case by (simp add: unsigned_value_def)
next
  case (snoc b bs)
  have "uint b < 256" using uint_bounded[of b] by simp
  then show ?case
    by (simp add: snoc unsigned_value_snoc or_byte_int)
qed

lemma rawValue_of_unsigned_value:
  assumes "unsigned_value bs < 2 ^ 53" "length bs = 4 \<longrightarrow> unsigned_value bs < 2 ^ 31"
  shows "rawValue_of bs = Num (of_nat (unsigned_value bs))"
proof (cases "length bs > 4")
  case True
  have "Number_BigInt (int (unsigned_value bs)) = Num (of_int (int (unsigned_value bs)))"
    using assms(1) by (intro Number_BigInt_exact) simp_all
  then show ?thesis
    using True by (simp add: rawValue_of_def foldl_Big_unsigned_value)
next
  case False
  have "unsigned_value bs < 2 ^ 31"
  proof (cases "length bs = 4")
    case True
    then show ?thesis using assms(2) by simp
  next
    case n4: False
    then have "length bs \<le> 3" using False by simp
    then have "(256::nat) ^ length bs \<le> 256 ^ 3" by (intro power_increasing) simp_all
    then show ?thesis using unsigned_value_bound[of bs] by simp
  qed
  then have "signed_take_bit 31 (int (unsigned_value bs)) = int (unsigned_value bs)"
    by (intro signed_take_bit_int_eq_self) simp_all
  then have "sint (word_of_nat (unsigned_value bs) :: int32) = int (unsigned_value bs)"
    using sint_sbintrunc'[where 'a = 32, of "int (unsigned_value bs)"] by simp
  moreover have "foldl (\<lambda>a b. push_bit 8 a OR ucast b) (0 :: int32) bs = word_of_nat (unsigned_value bs)"
    using fold32_of_Big[of 0 bs] by (simp add: foldl_Big_unsigned_value)
  ultimately show ?thesis
    using False by (simp add: rawValue_of_def)
qed

lemma decode_record_unsigned_value:
  assumes "length vs = unat N" "unsigned_value vs < 2 ^ 53"
    "unat N = 4 \<longrightarrow> unsigned_value vs < 2 ^ 31"
  shows "decode_transfer ([0, reserved, A, N] @ vs) =
         Some (Inr [PostMessage (ProcessedBulkData
           [\<lparr>address = A, rawValue = Num (of_nat (unsigned_value vs))\<rparr>])])"
  using decode_single_record[OF assms(1), of reserved A] rawValue_of_unsigned_value[of vs] assms
  by simp

text \<open>
  Claim C3 on the buffer \<open>00 00 05 04 80 00 00 00\<close>: the record has width 4 and the value
  bytes \<open>80 00 00 00\<close>, whose unsigned value \<open>2147483648\<close> is a safe integer, and the
  decoder posts the raw value \<open>-2147483648\<close>: widths up to 4 are accumulated with the
  32-bit signed operators \<open><<\<close> and \<open>|\<close>, and at width 4 the first byte reaches the sign bit.
\<close>

theorem width_4_rawValue_is_signed:
  "decode_transfer [0, 0, 5, 4, 0x80, 0, 0, 0] =
     Some (Inr [PostMessage (ProcessedBulkData [\<lparr>address = 5, rawValue = Num (- 2147483648)\<rparr>])]) \<and>
   unsigned_value [0x80, 0, 0, 0] = 2147483648"
proof
  show "decode_transfer [0, 0, 5, 4, 0x80, 0, 0, 0] =
     Some (Inr [PostMessage (ProcessedBulkData [\<lparr>address = 5, rawValue = Num (- 2147483648)\<rparr>])])"
    by (simp add: decoder_eval)
  show "unsigned_value [0x80, 0, 0, 0] = 2147483648"
    by (simp add: unsigned_value_def upt_conv_Cons)
qed

subsection \<open>Resynchronisation\<close>

text \<open>
  Claim C8, as the code has it. When every byte before a well-formed record is nonzero, the
  decoder goes over those bytes one at a time, decodes the record and posts it, first in its
  batch, with the address and the raw value it has when the record stands alone in a buffer;
  whatever follows the record does not matter.
\<close>

theorem resync_after_nonzero_prefix:
  assumes "\<forall>b\<in>set pre. b \<noteq> 0" "length vs = unat N"
  shows "\<exists>u us. decode_transfer ([0, reserved, A, N] @ vs) = Some (Inr [PostMessage (ProcessedBulkData [u])]) \<and>
           address u = A \<and>
           (\<forall>k<length pre. scan_body (pre @ [0, reserved, A, N] @ vs @ rest) (k, []) = Continue (k + 1, [])) \<and>
           decode_transfer (pre @ [0, reserved, A, N] @ vs @ rest) =
             Some (Inr [PostMessage (ProcessedBulkData (u # us))])"
proof -
  let ?dv = "pre @ [0, reserved, A, N] @ vs @ rest"
  let ?u = "\<lparr>address = A, rawValue = rawValue_of vs\<rparr>"
  have steps: "\<forall>k<length pre. scan_body ?dv (k, []) = Continue (k + 1, [])"
  proof (intro allI impI)
    fix k assume k: "k < length pre"
    then have lt: "k < length ?dv" by simp
    have "?dv ! k \<noteq> 0" using assms(1) k by (simp add: nth_append)
    then show "scan_body ?dv (k, []) = Continue (k + 1, [])"
      unfolding scan_body_eq[OF lt, of "[]"] by simp
  qed
  have "scan_loop ?dv (0, []) = scan_loop ?dv (length pre, [])"
    using scan_loop_skip[OF assms(1), of 0 "[0, reserved, A, N] @ vs @ rest" "[]"] by simp
  also have "\<dots> = scan_loop ?dv (length pre + 4 + unat N, [] @ [?u])"
    by (rule scan_loop_record[OF assms(2)])
  finally have "scan_loop ?dv (0, []) = scan_loop ?dv (length pre + 4 + unat N, [?u])" by simp
  moreover obtain r where "scan_loop ?dv (length pre + 4 + unat N, [?u]) = Some (Inr ([?u] @ r))"
    using scan_loop_total[of ?dv "length pre + 4 + unat N" "[?u]"] by blast
  ultimately have "decode_transfer ?dv = Some (Inr [PostMessage (ProcessedBulkData (?u # r))])"
    by (simp add: decode_transfer_def)
  with decode_single_record[OF assms(2), of reserved A] steps show ?thesis
    by (intro exI[of _ ?u] exI[of _ r]) simp
qed

theorem resync_after_nonzero_prefix_witness:
  "scan_body [1, 2, 5, 0, 0, 7, 1, 0x99, 0] (0, []) = Continue (1, []) \<and>
   decode_transfer [0, 0, 7, 1, 0x99] =
     Some (Inr [PostMessage (ProcessedBulkData [\<lparr>address = 7, rawValue = Num 153\<rparr>])]) \<and>
   decode_transfer [1, 2, 5, 0, 0, 7, 1, 0x99, 0] =
     Some (Inr [PostMessage (ProcessedBulkData [\<lparr>address = 7, rawValue = Num 153\<rparr>])])"
  using resync_after_nonzero_prefix[of "[1, 2, 5]" "[0x99]" 1 0 7 "[0]"]
  by (simp add: decoder_eval)

text \<open>
  A zero byte inside the damaged record is taken for a sentinel. In
  \<open>01 00 05 02 12 34 | 00 00 07 01 99\<close> the first record has its sentinel corrupted to 1;
  the scan finds the 0 at offset 1, reads the width \<open>0x12\<close> at offset 4, and stops since 18
  value bytes do not fit: the second record, well formed, is not posted.
\<close>

theorem resync_counterexample:
  "decode_transfer [0, 0, 7, 1, 0x99] =
     Some (Inr [PostMessage (ProcessedBulkData [\<lparr>address = 7, rawValue = Num 153\<rparr>])]) \<and>
   decode_transfer ([1, 0, 5, 2, 0x12, 0x34] @ [0, 0, 7, 1, 0x99]) = Some (Inr [])"
  by (simp add: decoder_eval)

end
